theory Spec2Isabelle
  imports Main
begin

section \<open>Strings of the script\<close>

text \<open>
  The script \<^verbatim>\<open>make_ci.py\<close> rewrites ANTLR keyword files line by line. The text of a
  file is a Python string: a list of Unicode code points. File names and the messages the
  script prints are never case-mapped; they are kept as lists of \<open>char\<close>.
\<close>

type_synonym codepoint = nat

type_synonym str = "codepoint list"

text \<open>An ASCII literal of the script as a list of code points.\<close>

definition ascii :: "string \<Rightarrow> str" where
  "ascii s = map of_char s"

abbreviation quote :: codepoint where
  "quote \<equiv> 39"

abbreviation linefeed :: codepoint where
  "linefeed \<equiv> 10"

abbreviation newline :: char where
  "newline \<equiv> CHR 0x0A"

abbreviation tab :: char where
  "tab \<equiv> CHR 0x09"

text \<open>
  \<^verbatim>\<open>str.upper()\<close> replaces every code point by its full upper-case mapping in the
  Unicode database of the interpreter, which is one code point or several (sharp s gives
  \<^verbatim>\<open>'SS'\<close>); \<^verbatim>\<open>ch.lower()\<close> on a string of one code point gives its full lower-case
  mapping, again one code point or several. The database belongs to the interpreter, not
  to the repository: the model takes the two mappings as a parameter, and what is proved
  holds for every database (and for byte strings, where the mappings are the ASCII ones).
\<close>

record casing =
  to_upper :: "codepoint \<Rightarrow> str"
  to_lower :: "codepoint \<Rightarrow> str"

text \<open>\<^verbatim>\<open>text.upper()\<close>.\<close>

definition upper :: "casing \<Rightarrow> str \<Rightarrow> str" where
  "upper cm s = concat (map (to_upper cm) s)"

text \<open>
  Python clamps the bounds of a slice: a negative bound counts from the end, and a bound
  outside the string is moved to the nearest end. \<open>None\<close> is an omitted bound.
\<close>

definition slice_index :: "nat \<Rightarrow> int \<Rightarrow> nat" where
  "slice_index n i = (if i < 0 then nat (max 0 (int n + i)) else min (nat i) n)"

definition slice :: "'a list \<Rightarrow> int option \<Rightarrow> int option \<Rightarrow> 'a list" where
  "slice s lo hi =
     (let n = length s;
          a = (case lo of None \<Rightarrow> 0 | Some i \<Rightarrow> slice_index n i);
          b = (case hi of None \<Rightarrow> n | Some j \<Rightarrow> slice_index n j)
      in take (b - a) (drop a s))"

text \<open>\<^verbatim>\<open>s.endswith(suf)\<close>.\<close>

definition endswith :: "'a list \<Rightarrow> 'a list \<Rightarrow> bool" where
  "endswith s suf = (length suf \<le> length s \<and> drop (length s - length suf) s = suf)"

text \<open>
  \<^verbatim>\<open>s.find(sub, start)\<close>: the lowest index at or after \<open>start\<close> where \<open>sub\<close> occurs,
  or \<open>-1\<close>. \<open>find_scan\<close> walks the rest of the string, \<open>k\<close> being the index of its head.
\<close>

fun find_scan :: "'a list \<Rightarrow> 'a list \<Rightarrow> nat \<Rightarrow> int" where
  "find_scan sub [] k = (if sub = [] then int k else - 1)"
| "find_scan sub (c # cs) k =
     (if take (length sub) (c # cs) = sub then int k else find_scan sub cs (Suc k))"

definition str_find :: "'a list \<Rightarrow> 'a list \<Rightarrow> int \<Rightarrow> int" where
  "str_find s sub start =
     (let n = length s;
          a = (if start < 0 then nat (max 0 (int n + start)) else nat start)
      in if n < a then - 1 else find_scan sub (drop a s) a)"

section \<open>The line rewriter\<close>

text \<open>
  The exceptions of a run: the \<^verbatim>\<open>ValueError\<close> the rewriter raises for a wrong file
  name, the error of opening a file that is not there, and the \<^verbatim>\<open>TypeError\<close> of the
  \<^verbatim>\<open>%c\<close> format.
\<close>

datatype error = ValueError string | FileNotFoundError string | TypeError

text \<open>
  \<^verbatim>\<open>'[%c%c]' % (ch, ch.lower())\<close>. The format \<^verbatim>\<open>%c\<close> takes a string of one code point
  and raises a \<^verbatim>\<open>TypeError\<close> for any other string; \<open>ch\<close> is one code point, its
  lower-case mapping need not be.
\<close>

definition bracket :: "casing \<Rightarrow> codepoint \<Rightarrow> error + str" where
  "bracket cm ch =
     (case to_lower cm ch of
        [l] \<Rightarrow> Inr (ascii ''['' @ [ch, l] @ ascii '']'')
      | _ \<Rightarrow> Inl TypeError)"

text \<open>
  The list comprehension \<^verbatim>\<open>['[%c%c]' % (ch, ch.lower()) for ch in text]\<close>: the first
  character whose format raises ends it.
\<close>

fun brackets :: "casing \<Rightarrow> str \<Rightarrow> error + str list" where
  "brackets cm [] = Inr []"
| "brackets cm (ch # text) =
     (case bracket cm ch of
        Inl e \<Rightarrow> Inl e
      | Inr b \<Rightarrow> (case brackets cm text of Inl e \<Rightarrow> Inl e | Inr bs \<Rightarrow> Inr (b # bs)))"

text \<open>
  The three statements that turn the quoted text into the bracket expressions:
  \<^verbatim>\<open>text = text.upper()\<close>, the list comprehension, and \<^verbatim>\<open>''.join(insens)\<close>.
\<close>

definition insens :: "casing \<Rightarrow> str \<Rightarrow> error + str" where
  "insens cm text =
     (case brackets cm (upper cm text) of Inl e \<Rightarrow> Inl e | Inr bs \<Rightarrow> Inr (concat bs))"

text \<open>
  The body of the loop of \<^verbatim>\<open>make_insensitive\<close>, from the line read to the line to
  write, or to the exception raised before anything of the line is written.
\<close>

definition rewrite_line :: "casing \<Rightarrow> str \<Rightarrow> error + str" where
  "rewrite_line cm line =
     (let i_comment = str_find line (ascii ''//'') 0;
          i_quote = str_find line [quote] 0
      in if i_quote \<noteq> - 1 \<and> (i_comment = - 1 \<or> i_quote < i_comment) then
           (let i_endquote = str_find line [quote] (i_quote + 1)
            in if i_endquote \<noteq> - 1 then
                 (let text = slice line (Some (i_quote + 1)) (Some i_endquote)
                  in case insens cm text of
                       Inl e \<Rightarrow> Inl e
                     | Inr ins \<Rightarrow>
                         Inr (slice line None (Some i_quote) @ ins
                                @ slice line (Some (i_endquote + 1)) None))
               else Inr line)
         else Inr line)"

text \<open>
  \<^verbatim>\<open>inp.readline()\<close> on the text that is left to read: the line up to and including
  the first newline (or up to the end of the file), and the text after it. At the end of
  the file the line is empty.
\<close>

fun readline :: "str \<Rightarrow> str \<times> str" where
  "readline [] = ([], [])"
| "readline (c # cs) =
     (if c = linefeed then ([c], cs)
      else (case readline cs of (l, r) \<Rightarrow> (c # l, r)))"

lemma readline_append: "readline inp = (l, r) \<Longrightarrow> l @ r = inp"
  by (induction inp arbitrary: l r) (auto split: if_splits prod.splits)

lemma readline_shorter: "readline inp = (l, r) \<Longrightarrow> l \<noteq> [] \<Longrightarrow> length r < length inp"
  using readline_append [of inp l r] by (cases l) auto

text \<open>
  The \<^verbatim>\<open>while True\<close> loop: \<open>inp\<close> is the text not yet read, \<open>out\<close> the text written so
  far. The loop ends at the empty read with the text written, or at an exception, with the
  text written before it.
\<close>

function copy_lines :: "casing \<Rightarrow> str \<Rightarrow> str \<Rightarrow> (error \<times> str) + str" where
  "copy_lines cm inp out =
     (case readline inp of (line, rest) \<Rightarrow>
        if line = [] then Inr out
        else (case rewrite_line cm line of
                Inl e \<Rightarrow> Inl (e, out)
              | Inr l \<Rightarrow> copy_lines cm rest (out @ l)))"
  by pat_completeness auto
termination
  by (relation "measure (\<lambda>(cm, inp, out). length inp)") (auto intro: readline_shorter [OF sym])

declare copy_lines.simps [simp del]

text \<open>
  The result of a run of the loop that starts after \<open>out\<close> was written: the text of the
  output file begins with \<open>out\<close>, whether the loop ends or raises.
\<close>

definition after_text :: "str \<Rightarrow> (error \<times> str) + str \<Rightarrow> (error \<times> str) + str" where
  "after_text out r = (case r of Inl (e, part) \<Rightarrow> Inl (e, out @ part) | Inr t \<Rightarrow> Inr (out @ t))"

section \<open>Files and the rewriter\<close>

text \<open>
  The file system maps a file name to the text of the file, as the script reads and
  writes it in text mode. Opening a file that does not exist for reading raises; opening
  a file for writing creates it or replaces its text. The input is opened first, and the
  output has another name (three characters shorter), so the two are never the same file.
  An exception in the loop leaves the \<^verbatim>\<open>with\<close> block, which closes both files: the
  output file then holds the lines written before the exception.
\<close>

type_synonym filesystem = "string \<rightharpoonup> str"

text \<open>\<^verbatim>\<open>out_filename = filename[:-3]\<close>.\<close>

definition out_filename :: "string \<Rightarrow> string" where
  "out_filename filename = slice filename None (Some (- 3))"

text \<open>The rewriter ends with the new file system, or raises and leaves the one it reached.\<close>

definition make_insensitive ::
  "casing \<Rightarrow> string \<Rightarrow> filesystem \<Rightarrow> (error \<times> filesystem) + filesystem" where
  "make_insensitive cm filename fs =
     (if \<not> endswith filename ''.g4.in'' then
        Inl (ValueError (''Unrecognized file-type for '' @ filename), fs)
      else
        (case fs filename of
           None \<Rightarrow> Inl (FileNotFoundError filename, fs)
         | Some content \<Rightarrow>
             (case copy_lines cm content [] of
                Inl (e, part) \<Rightarrow> Inl (e, fs(out_filename filename \<mapsto> part))
              | Inr out \<Rightarrow> Inr (fs(out_filename filename \<mapsto> out)))))"

section \<open>The command driver\<close>

text \<open>
  The state of a run: the text printed on standard output, and the file system.
  \<^verbatim>\<open>print(s)\<close> writes \<open>s\<close> and a newline.
\<close>

record world =
  stdout :: string
  files :: filesystem

definition print :: "string \<Rightarrow> world \<Rightarrow> world" where
  "print s w = w\<lparr>stdout := stdout w @ s @ [newline]\<rparr>"

text \<open>
  How the run ends: the script runs off its end, calls \<^verbatim>\<open>sys.exit\<close>, or stops at an
  exception nobody catches. The interpreter's exit status follows.
\<close>

datatype outcome = Finished | SysExit int | Uncaught error

fun exit_status :: "outcome \<Rightarrow> int" where
  "exit_status Finished = 0"
| "exit_status (SysExit n) = n"
| "exit_status (Uncaught e) = 1"

text \<open>The \<^verbatim>\<open>for filename in sys.argv[1:]\<close> loop.\<close>

fun for_filenames :: "casing \<Rightarrow> string list \<Rightarrow> world \<Rightarrow> outcome \<times> world" where
  "for_filenames cm [] w = (Finished, w)"
| "for_filenames cm (filename # rest) w =
     (if \<not> endswith filename ''.g4.in'' then
        for_filenames cm rest
          (print (''WARNING:  Unrecognized file-type for '' @ filename @ '', skipping.'') w)
      else
        (case make_insensitive cm filename (files w) of
           Inl (e, fs') \<Rightarrow> (Uncaught e, w\<lparr>files := fs'\<rparr>)
         | Inr fs' \<Rightarrow> for_filenames cm rest (w\<lparr>files := fs'\<rparr>)))"

text \<open>The script's top level, from \<^verbatim>\<open>sys.argv\<close> and the file system it starts in.\<close>

definition main :: "casing \<Rightarrow> string list \<Rightarrow> filesystem \<Rightarrow> outcome \<times> world" where
  "main cm argv fs =
     (let w = \<lparr>stdout = [], files = fs\<rparr>
      in if length argv = 1 then
           (SysExit 1,
            print (tab # ''Requires at least one file to be specified on the command-line.'')
              (print (tab # ''Converts the ANTLRv4 keyword file(s) to be case-insensitive.'')
                (print (''usage: '' @ argv ! 0 @ '' file1.g4.in [file2.g4.in ...]'') w)))
         else for_filenames cm (slice argv (Some 1) None) w)"

section \<open>Case mappings for the examples\<close>

text \<open>
  The mappings of the Unicode database on the code points of the examples below: the
  ASCII letters, \<^verbatim>\<open>U+00DF\<close> (sharp s, upper case \<^verbatim>\<open>SS\<close>), \<^verbatim>\<open>U+00E9\<close> and \<^verbatim>\<open>U+00C9\<close>
  (e with acute), and \<^verbatim>\<open>U+0130\<close> (capital I with dot above, whose lower case is the two
  code points \<^verbatim>\<open>U+0069 U+0307\<close>); digits, punctuation and white space are mapped to
  themselves. It stands for the database on texts made of these code points only.
\<close>

definition unicode_excerpt :: casing where
  "unicode_excerpt =
     \<lparr>to_upper = (\<lambda>c. if 97 \<le> c \<and> c \<le> 122 then [c - 32]
                       else if c = 0xDF then [83, 83]
                       else if c = 0xE9 then [0xC9]
                       else [c]),
      to_lower = (\<lambda>c. if 65 \<le> c \<and> c \<le> 90 then [c + 32]
                       else if c = 0xC9 then [0xE9]
                       else if c = 0x130 then [0x69, 0x307]
                       else [c])\<rparr>"


section \<open>What the string operations compute\<close>

text \<open>
  \<open>find_scan\<close> returns the first place where the substring occurs: the place it returns
  holds the substring, no earlier place does, and \<open>-1\<close> means that no place does.
\<close>

lemma find_scan_absent: "q \<notin> set s \<Longrightarrow> find_scan [q] s k = - 1"
  by (induction s arbitrary: k) auto

lemma find_scan_skip: "q \<notin> set pre \<Longrightarrow> find_scan [q] (pre @ rest) k = find_scan [q] rest (k + length pre)"
  by (induction pre arbitrary: k) auto

lemma find_scan_first: "q \<notin> set pre \<Longrightarrow> find_scan [q] (pre @ q # rest) k = int (k + length pre)"
  by (simp add: find_scan_skip)

lemma find_scan_range: "find_scan sub s k = - 1 \<or> (int k \<le> find_scan sub s k \<and> find_scan sub s k \<le> int (k + length s))"
  by (induction s arbitrary: k) (auto, force+)

lemma find_scan_occurrence:
  "find_scan sub (pre @ sub @ post) k \<noteq> - 1 \<and> find_scan sub (pre @ sub @ post) k \<le> int (k + length pre)"
proof (induction pre arbitrary: k)
  case Nil
  show ?case
  proof (cases "sub @ post")
    case Nil
    then show ?thesis by simp
  next
    case (Cons a l)
    have "take (length sub) (sub @ post) = sub" by simp
    with Cons have "take (length sub) (a # l) = sub" by simp
    with Cons show ?thesis by simp
  qed
next
  case (Cons c pre)
  show ?case using Cons.IH [of "Suc k"] by auto
qed



lemma find_scan_none:
  "find_scan sub s k = - 1 \<Longrightarrow> take (length sub) (drop j s) \<noteq> sub"
proof (induction s arbitrary: k j)
  case Nil
  then show ?case by (auto split: if_splits)
next
  case (Cons c cs)
  then show ?case by (cases j) (auto split: if_splits)
qed


text \<open>\<open>str_find\<close> and \<open>slice\<close> at the bounds the rewriter uses.\<close>

lemma str_find_0: "str_find s sub 0 = find_scan sub s 0"
  by (simp add: str_find_def)

lemma str_find_from: "a \<le> length s \<Longrightarrow> str_find s sub (int a) = find_scan sub (drop a s) a"
  by (simp add: str_find_def)

lemma str_find_from_Suc: "a < length s \<Longrightarrow> str_find s sub (int a + 1) = find_scan sub (drop (Suc a) s) (Suc a)"
  using str_find_from [of "Suc a" s sub] by (simp add: add.commute)

lemma slice_to: "slice s None (Some (int n)) = take n s"
  by (cases "n \<le> length s") (simp_all add: slice_def slice_index_def min_def)

lemma slice_from: "slice s (Some (int n)) None = drop n s"
  by (cases "n \<le> length s") (simp_all add: slice_def slice_index_def min_def)

lemma slice_mid: "slice s (Some (int a)) (Some (int b)) = take (b - a) (drop a s)"
  by (cases "a \<le> length s"; cases "b \<le> length s")
    (simp_all add: slice_def slice_index_def min_def Let_def)

section \<open>The rewriter on one line\<close>

lemma rewrite_line_no_quote:
  assumes "quote \<notin> set line"
  shows "rewrite_line cm line = Inr line"
  using assms by (simp add: rewrite_line_def str_find_0 find_scan_absent)

lemma rewrite_line_unterminated:
  assumes "quote \<notin> set pre" and "quote \<notin> set rest"
  shows "rewrite_line cm (pre @ quote # rest) = Inr (pre @ quote # rest)"
proof -
  let ?line = "pre @ quote # rest"
  have q: "str_find ?line [quote] 0 = int (length pre)"
    using assms(1) by (simp add: str_find_0 find_scan_first)
  have e: "str_find ?line [quote] (int (length pre) + 1) = - 1"
    using assms(2) by (simp add: str_find_from_Suc find_scan_absent)
  show ?thesis
    unfolding rewrite_line_def Let_def q e by simp
qed

lemma rewrite_line_literal:
  assumes "quote \<notin> set pre" and "quote \<notin> set mid"
    and "str_find (pre @ quote # mid @ quote # post) (ascii ''//'') 0 = - 1
         \<or> int (length pre) < str_find (pre @ quote # mid @ quote # post) (ascii ''//'') 0"
  shows "rewrite_line cm (pre @ quote # mid @ quote # post) =
    (case insens cm mid of Inl e \<Rightarrow> Inl e | Inr ins \<Rightarrow> Inr (pre @ ins @ post))"
proof -
  let ?line = "pre @ quote # mid @ quote # post"
  have q: "str_find ?line [quote] 0 = int (length pre)"
    using assms(1) by (simp add: str_find_0 find_scan_first)
  have e: "str_find ?line [quote] (int (length pre) + 1) = int (Suc (length pre + length mid))"
    using assms(2) by (simp add: str_find_from_Suc find_scan_first)
  have t: "slice ?line (Some (int (length pre) + 1)) (Some (int (Suc (length pre + length mid)))) = mid"
    using slice_mid [of ?line "Suc (length pre)" "Suc (length pre + length mid)"]
    by (simp add: add.commute)
  have a: "slice ?line None (Some (int (length pre))) = pre"
    by (simp add: slice_to)
  have b: "slice ?line (Some (int (Suc (length pre + length mid)) + 1)) None = post"
    using slice_from [of ?line "Suc (Suc (length pre + length mid))"]
    by (simp add: add.commute)
  show ?thesis
    unfolding rewrite_line_def Let_def q e t a b using assms(3) by auto
qed

lemma rewrite_line_comment_first:
  assumes "quote \<notin> set pre"
  shows "rewrite_line cm (pre @ ascii ''//'' @ post) = Inr (pre @ ascii ''//'' @ post)"
proof -
  let ?line = "pre @ ascii ''//'' @ post"
  have c: "str_find ?line (ascii ''//'') 0 \<noteq> - 1 \<and> str_find ?line (ascii ''//'') 0 \<le> int (length pre)"
    using find_scan_occurrence [of "ascii ''//''" pre post 0] by (simp add: str_find_0)
  have n: "quote \<notin> set (ascii ''//'')" by (simp add: ascii_def)
  have "str_find ?line [quote] 0 = find_scan [quote] (ascii ''//'' @ post) (length pre)"
    using assms by (simp add: str_find_0 find_scan_skip)
  moreover have "find_scan [quote] (ascii ''//'' @ post) (length pre) = - 1
      \<or> int (length pre) \<le> find_scan [quote] (ascii ''//'' @ post) (length pre)"
    using find_scan_range [of "[quote]" "ascii ''//'' @ post" "length pre"] by auto
  ultimately have "str_find ?line [quote] 0 = - 1
      \<or> int (length pre) \<le> str_find ?line [quote] 0" by simp
  with c show ?thesis
    unfolding rewrite_line_def Let_def by auto
qed

text \<open>
  The bracket expressions of a text: when every character of the upper-cased text has a
  lower-case mapping of one code point, no format raises; and the expressions of a text in
  two parts are those of the parts.
\<close>

lemma bracket_single: "to_lower cm c = [l] \<Longrightarrow> bracket cm c = Inr (ascii ''['' @ [c, l] @ ascii '']'')"
  by (simp add: bracket_def)








section \<open>The rewriter on a file\<close>

text \<open>
  The loop writes the rewritten lines one after the other, up to the first line that
  raises: a text that ends in a newline (or is empty) is rewritten on its own, and so is
  the line read after it.
\<close>

lemma readline_nonempty: "inp \<noteq> [] \<Longrightarrow> fst (readline inp) \<noteq> []"
  by (cases inp) (auto split: prod.splits)

lemma readline_first_line:
  "linefeed \<in> set a \<Longrightarrow> readline (a @ b) = (fst (readline a), snd (readline a) @ b)"
  by (induction a) (auto split: prod.splits)

lemma after_text_empty: "after_text [] r = r"
  by (simp add: after_text_def split: sum.splits)

lemma after_text_twice: "after_text a (after_text b r) = after_text (a @ b) r"
  by (simp add: after_text_def split: sum.splits)

lemma copy_lines_acc: "copy_lines cm inp out = after_text out (copy_lines cm inp [])"
proof (induction "length inp" arbitrary: inp out rule: less_induct)
  case less
  obtain line rest where r: "readline inp = (line, rest)" by (cases "readline inp")
  show ?case
  proof (cases "line = []")
    case True
    with r show ?thesis by (simp add: copy_lines.simps [of cm inp] after_text_def)
  next
    case False
    have s: "length rest < length inp" using r False by (rule readline_shorter)
    show ?thesis
    proof (cases "rewrite_line cm line")
      case (Inl e)
      with r False show ?thesis by (simp add: copy_lines.simps [of cm inp] after_text_def)
    next
      case (Inr l)
      have "copy_lines cm inp out = copy_lines cm rest (out @ l)"
        using r False Inr by (simp add: copy_lines.simps [of cm inp])
      also have "\<dots> = after_text (out @ l) (copy_lines cm rest [])"
        using less [OF s] .
      also have "\<dots> = after_text out (after_text l (copy_lines cm rest []))"
        by (simp add: after_text_twice)
      also have "\<dots> = after_text out (copy_lines cm rest ([] @ l))"
        using less [OF s, of l] by simp
      also have "\<dots> = after_text out (copy_lines cm inp [])"
        using r False Inr by (simp add: copy_lines.simps [of cm inp])
      finally show ?thesis .
    qed
  qed
qed

lemma copy_lines_empty: "copy_lines cm [] out = Inr out"
  by (simp add: copy_lines.simps [of cm "[]"])

lemma copy_lines_step:
  assumes "readline inp = (l, r)" and "l \<noteq> []"
  shows "copy_lines cm inp [] =
    (case rewrite_line cm l of
       Inl e \<Rightarrow> Inl (e, [])
     | Inr l' \<Rightarrow> after_text l' (copy_lines cm r []))"
proof (cases "rewrite_line cm l")
  case (Inl e)
  with assms show ?thesis by (simp add: copy_lines.simps [of cm inp])
next
  case (Inr l')
  with assms have "copy_lines cm inp [] = copy_lines cm r ([] @ l')"
    by (simp add: copy_lines.simps [of cm inp])
  then show ?thesis using copy_lines_acc [of cm r l'] Inr by simp
qed

lemma copy_lines_read:
  assumes "readline (line @ after) = (line, after)"
  shows "copy_lines cm (line @ after) [] =
    (case rewrite_line cm line of
       Inl e \<Rightarrow> Inl (e, [])
     | Inr l' \<Rightarrow> after_text l' (copy_lines cm after []))"
proof (cases "line = []")
  case True
  with assms readline_nonempty [of after] have "after = []" by auto
  with True show ?thesis
    by (simp add: copy_lines_empty rewrite_line_no_quote after_text_def)
next
  case False
  with assms show ?thesis by (rule copy_lines_step)
qed

lemma copy_lines_append:
  assumes "before = [] \<or> last before = linefeed"
  shows "copy_lines cm (before @ rest) [] =
    (case copy_lines cm before [] of
       Inl e \<Rightarrow> Inl e
     | Inr b \<Rightarrow> after_text b (copy_lines cm rest []))"
  using assms
proof (induction "length before" arbitrary: before rule: less_induct)
  case less
  show ?case
  proof (cases "before = []")
    case True
    then show ?thesis by (simp add: copy_lines_empty after_text_empty)
  next
    case False
    with less.prems have n: "linefeed \<in> set before" using last_in_set [of before] by auto
    obtain l r where lr: "readline before = (l, r)" by (cases "readline before")
    have l: "l \<noteq> []" using readline_nonempty [OF False] lr by simp
    have b: "l @ r = before" using lr by (rule readline_append)
    have s: "length r < length before" using lr l by (rule readline_shorter)
    have r: "r = [] \<or> last r = linefeed" using b less.prems False by (cases "r = []") auto
    have rl: "readline (before @ rest) = (l, r @ rest)"
      using readline_first_line [OF n, of rest] lr by simp
    show ?thesis
    proof (cases "rewrite_line cm l")
      case (Inl e)
      then show ?thesis
        using copy_lines_step [OF rl l, of cm] copy_lines_step [OF lr l, of cm] by simp
    next
      case (Inr l')
      have "copy_lines cm (before @ rest) [] = after_text l' (copy_lines cm (r @ rest) [])"
        using copy_lines_step [OF rl l, of cm] Inr by simp
      also have "\<dots> = after_text l'
          (case copy_lines cm r [] of
             Inl e \<Rightarrow> Inl e
           | Inr b \<Rightarrow> after_text b (copy_lines cm rest []))"
        using less.hyps [OF s r] by simp
      also have "\<dots> =
          (case after_text l' (copy_lines cm r []) of
             Inl e \<Rightarrow> Inl e
           | Inr b \<Rightarrow> after_text b (copy_lines cm rest []))"
        by (auto simp: after_text_def split: sum.splits)
      also have "after_text l' (copy_lines cm r []) = copy_lines cm before []"
        using copy_lines_step [OF lr l, of cm] Inr by simp
      finally show ?thesis .
    qed
  qed
qed

lemma copy_lines_around:
  assumes "before = [] \<or> last before = linefeed"
    and "readline (line @ after) = (line, after)"
    and "rewrite_line cm line = Inr line'"
  shows "copy_lines cm (before @ line @ after) [] =
    (case copy_lines cm before [] of
       Inl e \<Rightarrow> Inl e
     | Inr b \<Rightarrow> after_text (b @ line') (copy_lines cm after []))"
  using copy_lines_append [OF assms(1), of cm "line @ after"] copy_lines_read [OF assms(2), of cm]
    assms(3)
  by (simp add: after_text_twice split: sum.splits)

lemma make_insensitive_result:
  assumes "endswith filename ''.g4.in''" and "fs filename = Some content"
  shows "make_insensitive cm filename fs =
    (case copy_lines cm content [] of
       Inl (e, part) \<Rightarrow> Inl (e, fs(out_filename filename \<mapsto> part))
     | Inr out \<Rightarrow> Inr (fs(out_filename filename \<mapsto> out)))"
  using assms by (simp add: make_insensitive_def)

lemma make_insensitive_around:
  assumes "endswith filename ''.g4.in''"
    and "fs filename = Some (before @ line @ after)"
    and "before = [] \<or> last before = linefeed"
    and "readline (line @ after) = (line, after)"
    and "rewrite_line cm line = Inr line'"
    and "copy_lines cm before [] = Inr b"
    and "copy_lines cm after [] = Inr a"
  shows "make_insensitive cm filename fs = Inr (fs(out_filename filename \<mapsto> b @ line' @ a))"
proof -
  have "copy_lines cm (before @ line @ after) [] = Inr (b @ line' @ a)"
    using copy_lines_around [OF assms(3,4,5)] assms(6,7) by (simp add: after_text_def)
  with make_insensitive_result [of filename fs, OF assms(1,2), of cm] show ?thesis by simp
qed

section \<open>Properties of the line rewriter\<close>





text \<open>
  C4. A line without a quote character is written as it was read.
\<close>

theorem no_quote_unchanged:
  assumes "quote \<notin> set line"
  shows "rewrite_line cm line = Inr line"
  using assms by (rule rewrite_line_no_quote)

theorem no_quote_unchanged_witness:
  "quote \<notin> set (ascii ''fragment DIGIT: [0-9]; // digits'' @ [linefeed])
   \<and> rewrite_line unicode_excerpt (ascii ''fragment DIGIT: [0-9]; // digits'' @ [linefeed]) =
       Inr (ascii ''fragment DIGIT: [0-9]; // digits'' @ [linefeed])"
proof -
  have q: "quote \<notin> set (ascii ''fragment DIGIT: [0-9]; // digits'' @ [linefeed])"
    by (simp add: ascii_def)
  show ?thesis
    using no_quote_unchanged [OF q, of unicode_excerpt] q by simp
qed

text \<open>
  C5. A line with a comment marker and no quote before it (so that its first quote, if it
  has one, comes after the first comment marker) is written as it was read.
\<close>

theorem quote_after_comment_unchanged:
  assumes "quote \<notin> set pre"
  shows "rewrite_line cm (pre @ ascii ''//'' @ post) = Inr (pre @ ascii ''//'' @ post)"
  using assms by (rule rewrite_line_comment_first)

theorem quote_after_comment_unchanged_witness:
  "quote \<notin> set (ascii ''KEY : X ; '')
   \<and> quote \<in> set (ascii '' was '' @ quote # ascii ''key'' @ quote # [linefeed])
   \<and> rewrite_line unicode_excerpt
        (ascii ''KEY : X ; '' @ ascii ''//'' @ ascii '' was '' @ quote # ascii ''key'' @ quote # [linefeed]) =
       Inr (ascii ''KEY : X ; // was '' @ quote # ascii ''key'' @ quote # [linefeed])"
proof -
  have q: "quote \<notin> set (ascii ''KEY : X ; '')"
    by (simp add: ascii_def)
  show ?thesis
    using quote_after_comment_unchanged [OF q, of unicode_excerpt
        "ascii '' was '' @ quote # ascii ''key'' @ quote # [linefeed]"] q
    by (simp add: ascii_def)
qed

text \<open>
  C6. A line with one quote only (an opening quote and no closing quote after it) is
  written as it was read; it never raises, and the file is not abandoned there: the loop
  writes the rewritten text before the line, the line itself, and goes on with the text
  after it. When the text before and the text after are rewritten without an exception, the
  rewriter returns normally and its output file holds the three.
\<close>

theorem unterminated_quote_passes_through:
  assumes "quote \<notin> set pre" and "quote \<notin> set rest"
    and "endswith filename ''.g4.in''"
    and "fs filename = Some (before @ (pre @ quote # rest) @ after)"
    and "before = [] \<or> last before = linefeed"
    and "readline ((pre @ quote # rest) @ after) = (pre @ quote # rest, after)"
  shows "rewrite_line cm (pre @ quote # rest) = Inr (pre @ quote # rest)
    \<and> copy_lines cm (before @ (pre @ quote # rest) @ after) [] =
        (case copy_lines cm before [] of
           Inl e \<Rightarrow> Inl e
         | Inr b \<Rightarrow> after_text (b @ pre @ quote # rest) (copy_lines cm after []))
    \<and> (\<forall>b a. copy_lines cm before [] = Inr b \<and> copy_lines cm after [] = Inr a \<longrightarrow>
          make_insensitive cm filename fs =
            Inr (fs(out_filename filename \<mapsto> b @ (pre @ quote # rest) @ a)))"
proof (intro conjI allI impI)
  show l: "rewrite_line cm (pre @ quote # rest) = Inr (pre @ quote # rest)"
    using assms(1,2) by (rule rewrite_line_unterminated)
  show "copy_lines cm (before @ (pre @ quote # rest) @ after) [] =
        (case copy_lines cm before [] of
           Inl e \<Rightarrow> Inl e
         | Inr b \<Rightarrow> after_text (b @ pre @ quote # rest) (copy_lines cm after []))"
    using copy_lines_around [OF assms(5,6) l] by simp
  fix b a
  assume h: "copy_lines cm before [] = Inr b \<and> copy_lines cm after [] = Inr a"
  show "make_insensitive cm filename fs =
      Inr (fs(out_filename filename \<mapsto> b @ (pre @ quote # rest) @ a))"
    using assms(3,4,5,6) l h [THEN conjunct1] h [THEN conjunct2]
    by (rule make_insensitive_around)
qed

theorem unterminated_quote_passes_through_witness:
  "quote \<notin> set (ascii ''KEY '') \<and> quote \<notin> set (ascii ''abc'' @ [linefeed])
   \<and> endswith ''K.g4.in'' ''.g4.in''
   \<and> readline ((ascii ''KEY '' @ quote # ascii ''abc'' @ [linefeed]) @ ascii ''B: b;'') =
       (ascii ''KEY '' @ quote # ascii ''abc'' @ [linefeed], ascii ''B: b;'')
   \<and> rewrite_line unicode_excerpt (ascii ''KEY '' @ quote # ascii ''abc'' @ [linefeed]) =
       Inr (ascii ''KEY '' @ quote # ascii ''abc'' @ [linefeed])
   \<and> make_insensitive unicode_excerpt ''K.g4.in''
        [''K.g4.in'' \<mapsto> (ascii ''A: a;'' @ [linefeed])
            @ (ascii ''KEY '' @ quote # ascii ''abc'' @ [linefeed]) @ ascii ''B: b;'']
      = Inr ([''K.g4.in'' \<mapsto> (ascii ''A: a;'' @ [linefeed])
                @ (ascii ''KEY '' @ quote # ascii ''abc'' @ [linefeed]) @ ascii ''B: b;'',
              ''K.g4'' \<mapsto> ascii ''A: a;'' @ [linefeed]
                @ ascii ''KEY '' @ quote # ascii ''abc'' @ [linefeed] @ ascii ''B: b;''])"
proof -
  let ?fs = "[''K.g4.in'' \<mapsto> (ascii ''A: a;'' @ [linefeed])
            @ (ascii ''KEY '' @ quote # ascii ''abc'' @ [linefeed]) @ ascii ''B: b;'']"
  have q: "quote \<notin> set (ascii ''KEY '')" "quote \<notin> set (ascii ''abc'' @ [linefeed])"
    "quote \<notin> set (ascii ''A: a;'' @ [linefeed])" "quote \<notin> set (ascii ''B: b;'')"
    by (simp_all add: ascii_def)
  have e: "endswith ''K.g4.in'' ''.g4.in''" by (simp add: endswith_def)
  have o: "out_filename ''K.g4.in'' = ''K.g4''"
    by (simp add: out_filename_def slice_def slice_index_def)
  have r: "readline ((ascii ''KEY '' @ quote # ascii ''abc'' @ [linefeed]) @ ascii ''B: b;'') =
       (ascii ''KEY '' @ quote # ascii ''abc'' @ [linefeed], ascii ''B: b;'')"
    by (simp add: ascii_def)
  have ra: "readline ((ascii ''A: a;'' @ [linefeed]) @ []) = (ascii ''A: a;'' @ [linefeed], [])"
    by (simp add: ascii_def)
  have rb: "readline (ascii ''B: b;'' @ []) = (ascii ''B: b;'', [])"
    by (simp add: ascii_def)
  have a: "copy_lines unicode_excerpt (ascii ''A: a;'' @ [linefeed]) [] = Inr (ascii ''A: a;'' @ [linefeed])"
    using copy_lines_read [OF ra, of unicode_excerpt] rewrite_line_no_quote [OF q(3), of unicode_excerpt]
    by (simp add: copy_lines_empty after_text_def)
  have b: "copy_lines unicode_excerpt (ascii ''B: b;'') [] = Inr (ascii ''B: b;'')"
    using copy_lines_read [OF rb, of unicode_excerpt] rewrite_line_no_quote [OF q(4), of unicode_excerpt]
    by (simp add: copy_lines_empty after_text_def)
  have l: "last (ascii ''A: a;'' @ [linefeed]) = linefeed" by simp
  note t = unterminated_quote_passes_through [OF q(1) q(2) e _ disjI2 [OF l] r,
      where fs = ?fs and cm = unicode_excerpt]
  have f: "?fs ''K.g4.in'' = Some ((ascii ''A: a;'' @ [linefeed])
            @ (ascii ''KEY '' @ quote # ascii ''abc'' @ [linefeed]) @ ascii ''B: b;'')"
    by simp
  from t [OF f] have
    "rewrite_line unicode_excerpt (ascii ''KEY '' @ quote # ascii ''abc'' @ [linefeed]) =
       Inr (ascii ''KEY '' @ quote # ascii ''abc'' @ [linefeed])"
    and "make_insensitive unicode_excerpt ''K.g4.in'' ?fs =
       Inr (?fs(out_filename ''K.g4.in'' \<mapsto> (ascii ''A: a;'' @ [linefeed])
          @ (ascii ''KEY '' @ quote # ascii ''abc'' @ [linefeed]) @ ascii ''B: b;''))"
    using a b by blast+
  then show ?thesis using q e r unfolding o by simp
qed

text \<open>
  C9. Two quoted texts that are equal once upper-cased give the same bracket expressions
  (or the same exception), and the two lines that differ only in them are written as the
  same line.
\<close>

theorem expansion_case_invariant:
  assumes "upper cm t1 = upper cm t2"
    and "quote \<notin> set pre" and "quote \<notin> set t1" and "quote \<notin> set t2"
    and "str_find (pre @ quote # t1 @ quote # post) (ascii ''//'') 0 = - 1
         \<or> int (length pre) < str_find (pre @ quote # t1 @ quote # post) (ascii ''//'') 0"
    and "str_find (pre @ quote # t2 @ quote # post) (ascii ''//'') 0 = - 1
         \<or> int (length pre) < str_find (pre @ quote # t2 @ quote # post) (ascii ''//'') 0"
  shows "insens cm t1 = insens cm t2
    \<and> rewrite_line cm (pre @ quote # t1 @ quote # post) =
        rewrite_line cm (pre @ quote # t2 @ quote # post)"
proof -
  have i: "insens cm t1 = insens cm t2" using assms(1) by (simp add: insens_def)
  have "rewrite_line cm (pre @ quote # t1 @ quote # post) =
      (case insens cm t1 of Inl e \<Rightarrow> Inl e | Inr ins \<Rightarrow> Inr (pre @ ins @ post))"
    using assms(2,3,5) by (rule rewrite_line_literal)
  moreover have "rewrite_line cm (pre @ quote # t2 @ quote # post) =
      (case insens cm t2 of Inl e \<Rightarrow> Inl e | Inr ins \<Rightarrow> Inr (pre @ ins @ post))"
    using assms(2,4,6) by (rule rewrite_line_literal)
  ultimately show ?thesis using i by simp
qed

theorem expansion_case_invariant_witness:
  "upper unicode_excerpt (ascii ''Select'') = upper unicode_excerpt (ascii ''SELECT'')
   \<and> quote \<notin> set (ascii ''K: '') \<and> quote \<notin> set (ascii ''Select'')
   \<and> quote \<notin> set (ascii ''SELECT'')
   \<and> str_find (ascii ''K: '' @ quote # ascii ''Select'' @ quote # ascii '';'') (ascii ''//'') 0 = - 1
   \<and> str_find (ascii ''K: '' @ quote # ascii ''SELECT'' @ quote # ascii '';'') (ascii ''//'') 0 = - 1
   \<and> insens unicode_excerpt (ascii ''Select'') = Inr (ascii ''[Ss][Ee][Ll][Ee][Cc][Tt]'')
   \<and> insens unicode_excerpt (ascii ''Select'') = insens unicode_excerpt (ascii ''SELECT'')
   \<and> rewrite_line unicode_excerpt (ascii ''K: '' @ quote # ascii ''Select'' @ quote # ascii '';'') =
       rewrite_line unicode_excerpt (ascii ''K: '' @ quote # ascii ''SELECT'' @ quote # ascii '';'')
   \<and> upper unicode_excerpt [0xDF] = upper unicode_excerpt (ascii ''SS'')
   \<and> insens unicode_excerpt [0xDF] = insens unicode_excerpt (ascii ''SS'')"
proof -
  have u: "upper unicode_excerpt (ascii ''Select'') = upper unicode_excerpt (ascii ''SELECT'')"
    "upper unicode_excerpt [0xDF] = upper unicode_excerpt (ascii ''SS'')"
    by (simp_all add: upper_def unicode_excerpt_def ascii_def)
  have q: "quote \<notin> set (ascii ''K: '')" "quote \<notin> set (ascii ''Select'')"
    "quote \<notin> set (ascii ''SELECT'')" "quote \<notin> set [0xDF :: nat]" "quote \<notin> set (ascii ''SS'')"
    by (simp_all add: ascii_def)
  have c: "str_find (ascii ''K: '' @ quote # ascii ''Select'' @ quote # ascii '';'') (ascii ''//'') 0 = - 1"
    "str_find (ascii ''K: '' @ quote # ascii ''SELECT'' @ quote # ascii '';'') (ascii ''//'') 0 = - 1"
    "str_find (ascii ''K: '' @ quote # [0xDF] @ quote # ascii '';'') (ascii ''//'') 0 = - 1"
    "str_find (ascii ''K: '' @ quote # ascii ''SS'' @ quote # ascii '';'') (ascii ''//'') 0 = - 1"
    by (simp_all add: str_find_def ascii_def)
  have i: "insens unicode_excerpt (ascii ''Select'') = Inr (ascii ''[Ss][Ee][Ll][Ee][Cc][Tt]'')"
    by (simp add: insens_def bracket_def upper_def unicode_excerpt_def ascii_def)
  show ?thesis
    using expansion_case_invariant [OF u(1) q(1) q(2) q(3) disjI1 [OF c(1)] disjI1 [OF c(2)]]
      expansion_case_invariant [OF u(2) q(1) q(4) q(5) disjI1 [OF c(3)] disjI1 [OF c(4)]]
      u q c i
    by simp
qed






section \<open>Properties of the files and of the driver\<close>

lemma endswith_append: "endswith (x @ suf) suf"
  by (simp add: endswith_def)

lemma endswith_split: "endswith s suf \<Longrightarrow> \<exists>x. s = x @ suf"
proof -
  assume "endswith s suf"
  then have "s = take (length s - length suf) s @ suf"
    using append_take_drop_id [of "length s - length suf" s] by (simp add: endswith_def)
  then show ?thesis ..
qed

lemma out_filename_strip: "out_filename (x @ ''.g4.in'') = x @ ''.g4''"
proof -
  have "nat (3 + int (length x)) - length x = 3" by linarith
  then show ?thesis by (simp add: out_filename_def slice_def slice_index_def)
qed

text \<open>
  C7. For a file name that ends in \<^verbatim>\<open>.g4.in\<close>, the name of the output file is the
  name without its last three characters \<^verbatim>\<open>.in\<close>: \<^verbatim>\<open>X.g4.in\<close> gives \<^verbatim>\<open>X.g4\<close>,
  the rest of the name is kept, and this is the file the rewriter writes, whether its loop
  ends or raises.
\<close>

theorem out_filename_drops_in:
  assumes "endswith filename ''.g4.in''"
  shows "(\<exists>x. filename = x @ ''.g4.in'' \<and> out_filename filename = x @ ''.g4'')
    \<and> out_filename filename @ ''.in'' = filename
    \<and> (\<forall>fs content. fs filename = Some content \<longrightarrow>
          make_insensitive cm filename fs =
            (case copy_lines cm content [] of
               Inl (e, part) \<Rightarrow> Inl (e, fs(out_filename filename \<mapsto> part))
             | Inr out \<Rightarrow> Inr (fs(out_filename filename \<mapsto> out))))"
proof -
  from assms obtain x where x: "filename = x @ ''.g4.in''" by (auto dest: endswith_split)
  then have o: "out_filename filename = x @ ''.g4''" by (simp only: out_filename_strip)
  from x o have "out_filename filename @ ''.in'' = filename" by simp
  with x o assms show ?thesis by (auto simp only: make_insensitive_result)
qed

theorem out_filename_drops_in_witness:
  "endswith ''Keywords.g4.in'' ''.g4.in''
   \<and> out_filename ''Keywords.g4.in'' = ''Keywords.g4''
   \<and> make_insensitive unicode_excerpt ''Keywords.g4.in''
        [''Keywords.g4.in'' \<mapsto> ascii ''SELECT: '' @ quote # ascii ''select'' @ quote # ascii '';'' @ [linefeed]]
      = Inr [''Keywords.g4.in'' \<mapsto> ascii ''SELECT: '' @ quote # ascii ''select'' @ quote # ascii '';'' @ [linefeed],
             ''Keywords.g4'' \<mapsto> ascii ''SELECT: [Ss][Ee][Ll][Ee][Cc][Tt];'' @ [linefeed]]"
proof -
  let ?line = "ascii ''SELECT: '' @ quote # ascii ''select'' @ quote # ascii '';'' @ [linefeed]"
  have e: "endswith ''Keywords.g4.in'' ''.g4.in''"
    by (simp add: endswith_def)
  have o: "out_filename ''Keywords.g4.in'' = ''Keywords.g4''"
    by (simp add: out_filename_def slice_def slice_index_def)
  have r: "rewrite_line unicode_excerpt ?line = Inr (ascii ''SELECT: [Ss][Ee][Ll][Ee][Cc][Tt];'' @ [linefeed])"
    by (simp add: rewrite_line_def str_find_def slice_def slice_index_def insens_def bracket_def
        upper_def unicode_excerpt_def ascii_def)
  have rl: "readline (?line @ []) = (?line, [])"
    by (simp add: ascii_def)
  have c: "copy_lines unicode_excerpt ?line [] = Inr (ascii ''SELECT: [Ss][Ee][Ll][Ee][Cc][Tt];'' @ [linefeed])"
    using copy_lines_read [OF rl, of unicode_excerpt] r by (simp add: copy_lines_empty after_text_def)
  show ?thesis
    using out_filename_drops_in [OF e, of unicode_excerpt] e o c by simp
qed

text \<open>
  C3, as the specification has it: with no file argument the script prints a usage text of
  two lines and ends with a status that is not zero. The status is right, the count is
  not: at \<^verbatim>\<open>argv = ['make_ci.py']\<close> the text does not have two lines.
\<close>

theorem usage_two_lines_counterexample:
  "\<not> (count_list (stdout (snd (main unicode_excerpt [''make_ci.py''] Map.empty))) newline = 2
      \<and> exit_status (fst (main unicode_excerpt [''make_ci.py''] Map.empty)) \<noteq> 0)"
  by (simp add: main_def print_def)

text \<open>
  C3, amended: with no file argument (\<open>argv\<close> holds the program name only) the script
  prints the usage text of its three \<^verbatim>\<open>print\<close> calls, three lines when the program name
  has no newline in it, touches no file, and ends with exit status 1.
\<close>

theorem usage_three_lines:
  "main cm [prog] fs =
     (SysExit 1,
      \<lparr>stdout = ''usage: '' @ prog @ '' file1.g4.in [file2.g4.in ...]'' @ [newline]
          @ tab # ''Converts the ANTLRv4 keyword file(s) to be case-insensitive.'' @ [newline]
          @ tab # ''Requires at least one file to be specified on the command-line.'' @ [newline],
       files = fs\<rparr>)
   \<and> exit_status (fst (main cm [prog] fs)) = 1
   \<and> (newline \<notin> set prog \<longrightarrow> count_list (stdout (snd (main cm [prog] fs))) newline = 3)"
  by (simp add: main_def print_def)

theorem usage_three_lines_witness:
  "newline \<notin> set ''make_ci.py''
   \<and> exit_status (fst (main unicode_excerpt [''make_ci.py''] Map.empty)) = 1
   \<and> count_list (stdout (snd (main unicode_excerpt [''make_ci.py''] Map.empty))) newline = 3"
  using usage_three_lines [of unicode_excerpt "''make_ci.py''" Map.empty] by simp

text \<open>
  The outcome of the loop over the arguments and the files it leaves depend on the files
  it starts with, not on what was printed before; an argument that is skipped changes
  neither. The output of the rewriter is never one of its inputs, so an argument that is
  rewritten without an exception at the start of the run still is when the loop reaches it,
  and the loop runs to its end when this holds for every argument it rewrites.
\<close>

lemma for_filenames_files_only:
  "files w = files w' \<Longrightarrow>
   fst (for_filenames cm args w) = fst (for_filenames cm args w')
   \<and> files (snd (for_filenames cm args w)) = files (snd (for_filenames cm args w'))"
proof (induction args arbitrary: w w')
  case Nil
  then show ?case by simp
next
  case (Cons a args)
  show ?case
  proof (cases "endswith a ''.g4.in''")
    case False
    have "files (print s w) = files (print s w')" for s
      using Cons.prems by (simp add: print_def)
    from Cons.IH [OF this] False show ?thesis by simp
  next
    case True
    show ?thesis
    proof (cases "make_insensitive cm a (files w)")
      case (Inl e)
      with True Cons.prems show ?thesis by (cases e) simp
    next
      case (Inr fs')
      have "files (w\<lparr>files := fs'\<rparr>) = files (w'\<lparr>files := fs'\<rparr>)" by simp
      from Cons.IH [OF this] True Inr Cons.prems show ?thesis by simp
    qed
  qed
qed

lemma for_filenames_skip:
  assumes "\<not> endswith name ''.g4.in''"
  shows "fst (for_filenames cm (pre @ name # post) w) = fst (for_filenames cm (pre @ post) w)
    \<and> files (snd (for_filenames cm (pre @ name # post) w)) =
        files (snd (for_filenames cm (pre @ post) w))"
proof (induction pre arbitrary: w)
  case Nil
  have "files (print s w) = files w" for s by (simp add: print_def)
  from for_filenames_files_only [OF this] assms show ?case by simp
next
  case (Cons a pre)
  then show ?case by (simp split: sum.splits prod.splits)
qed

lemma out_not_input:
  assumes "endswith a ''.g4.in''" and "endswith b ''.g4.in''"
  shows "out_filename b \<noteq> a"
proof -
  from endswith_split [OF assms(1)] obtain x where a: "a = x @ ''.g4.in''" ..
  from endswith_split [OF assms(2)] obtain y where b: "b = y @ ''.g4.in''" ..
  have "last (out_filename b) = CHR ''4''" using b by (simp add: out_filename_strip)
  moreover have "last a = CHR ''n''" using a by simp
  ultimately show ?thesis by auto
qed

lemma isl_make_insensitive:
  "fs' a = fs a \<Longrightarrow> isl (make_insensitive cm a fs') = isl (make_insensitive cm a fs)"
  by (simp add: make_insensitive_def split: option.splits sum.splits prod.splits)

lemma for_filenames_finishes:
  "\<forall>a\<in>set args. endswith a ''.g4.in'' \<longrightarrow> \<not> isl (make_insensitive cm a (files w)) \<Longrightarrow>
   fst (for_filenames cm args w) = Finished"
proof (induction args arbitrary: w)
  case Nil
  then show ?case by simp
next
  case (Cons a args)
  show ?case
  proof (cases "endswith a ''.g4.in''")
    case False
    have "\<forall>b\<in>set args. endswith b ''.g4.in'' \<longrightarrow>
        \<not> isl (make_insensitive cm b (files (print s w)))" for s
      using Cons.prems by (simp add: print_def)
    from Cons.IH [OF this] False show ?thesis by simp
  next
    case True
    with Cons.prems obtain fs' where m: "make_insensitive cm a (files w) = Inr fs'"
      by (cases "make_insensitive cm a (files w)") auto
    obtain content where c: "files w a = Some content"
      using m True by (auto simp: make_insensitive_def split: option.splits)
    have fs': "\<exists>t. fs' = (files w)(out_filename a \<mapsto> t)"
      using m True c by (auto simp: make_insensitive_def split: sum.splits prod.splits)
    have "\<forall>b\<in>set args. endswith b ''.g4.in'' \<longrightarrow>
        \<not> isl (make_insensitive cm b (files (w\<lparr>files := fs'\<rparr>)))"
    proof (intro ballI impI)
      fix b assume b: "b \<in> set args" "endswith b ''.g4.in''"
      have "out_filename a \<noteq> b" using b(2) True by (rule out_not_input)
      with fs' have "fs' b = files w b" by auto
      then have "isl (make_insensitive cm b fs') = isl (make_insensitive cm b (files w))"
        by (rule isl_make_insensitive)
      with Cons.prems b
      show "\<not> isl (make_insensitive cm b (files (w\<lparr>files := fs'\<rparr>)))" by simp
    qed
    from Cons.IH [OF this] True m show ?thesis by simp
  qed
qed

text \<open>
  C8, as the specification has it: an argument without the suffix is skipped with a
  warning, and the final exit status remains 0. The status is not the skip's to keep: in
  the run \<^verbatim>\<open>make_ci.py notes.txt gone.g4.in\<close>, where \<^verbatim>\<open>gone.g4.in\<close> does not exist, the
  rewriter raises on the last argument, nobody catches the exception, and the status is 1.
\<close>

theorem skip_status_counterexample:
  "\<not> endswith ''notes.txt'' ''.g4.in''
   \<and> fst (main unicode_excerpt [''make_ci.py'', ''notes.txt'', ''gone.g4.in''] Map.empty) =
       Uncaught (FileNotFoundError ''gone.g4.in'')
   \<and> exit_status (fst (main unicode_excerpt [''make_ci.py'', ''notes.txt'', ''gone.g4.in''] Map.empty))
       = 1
   \<and> exit_status (fst (main unicode_excerpt [''make_ci.py'', ''notes.txt'', ''gone.g4.in''] Map.empty))
       \<noteq> 0"
  by (simp add: main_def slice_def slice_index_def endswith_def make_insensitive_def print_def)

text \<open>
  C8, amended. For an argument that does not end in \<^verbatim>\<open>.g4.in\<close> the driver prints the
  line \<^verbatim>\<open>WARNING:  Unrecognized file-type for <name>, skipping.\<close> and nothing else, leaves
  the files as they are (the rewriter is not called), and goes on with the arguments after
  it. The skip does not change how the run ends nor the files it leaves: they are those of
  the loop over the other arguments. The exit status is 0 for a run with this argument
  alone, and whenever the rewriter raises on none of the other arguments.
\<close>

theorem unrecognized_skipped:
  assumes "\<not> endswith name ''.g4.in''"
  shows "for_filenames cm (name # rest) w =
      for_filenames cm rest
        (w\<lparr>stdout := stdout w @ ''WARNING:  Unrecognized file-type for '' @ name
            @ '', skipping.'' @ [newline]\<rparr>)
    \<and> fst (for_filenames cm (pre @ name # post) w) = fst (for_filenames cm (pre @ post) w)
    \<and> files (snd (for_filenames cm (pre @ name # post) w)) =
        files (snd (for_filenames cm (pre @ post) w))
    \<and> main cm [prog, name] fs =
        (Finished,
         \<lparr>stdout = ''WARNING:  Unrecognized file-type for '' @ name @ '', skipping.'' @ [newline],
          files = fs\<rparr>)
    \<and> exit_status (fst (main cm (prog # pre @ name # post) fs)) =
        exit_status (fst (for_filenames cm (pre @ post) \<lparr>stdout = [], files = fs\<rparr>))
    \<and> ((\<forall>a\<in>set (pre @ post). endswith a ''.g4.in'' \<longrightarrow> \<not> isl (make_insensitive cm a fs)) \<longrightarrow>
         exit_status (fst (main cm (prog # pre @ name # post) fs)) = 0)"
proof (intro conjI impI)
  show "for_filenames cm (name # rest) w =
      for_filenames cm rest
        (w\<lparr>stdout := stdout w @ ''WARNING:  Unrecognized file-type for '' @ name
            @ '', skipping.'' @ [newline]\<rparr>)"
    using assms by (simp add: print_def)
  show "fst (for_filenames cm (pre @ name # post) w) = fst (for_filenames cm (pre @ post) w)"
    using for_filenames_skip [OF assms] by simp
  show "files (snd (for_filenames cm (pre @ name # post) w)) =
        files (snd (for_filenames cm (pre @ post) w))"
    using for_filenames_skip [OF assms] by simp
  show "main cm [prog, name] fs =
        (Finished,
         \<lparr>stdout = ''WARNING:  Unrecognized file-type for '' @ name @ '', skipping.'' @ [newline],
          files = fs\<rparr>)"
    using assms by (simp add: main_def slice_def slice_index_def print_def)
  have s: "slice (prog # pre @ name # post) (Some 1) None = pre @ name # post"
    by (simp add: slice_def slice_index_def)
  have m: "fst (main cm (prog # pre @ name # post) fs) =
      fst (for_filenames cm (pre @ name # post) \<lparr>stdout = [], files = fs\<rparr>)"
    using s by (simp add: main_def)
  show "exit_status (fst (main cm (prog # pre @ name # post) fs)) =
        exit_status (fst (for_filenames cm (pre @ post) \<lparr>stdout = [], files = fs\<rparr>))"
    using m for_filenames_skip [OF assms, of cm pre post "\<lparr>stdout = [], files = fs\<rparr>"] by simp
  show "exit_status (fst (main cm (prog # pre @ name # post) fs)) = 0"
    if h: "\<forall>a\<in>set (pre @ post). endswith a ''.g4.in'' \<longrightarrow> \<not> isl (make_insensitive cm a fs)"
  proof -
    have "\<forall>a\<in>set (pre @ name # post). endswith a ''.g4.in'' \<longrightarrow>
        \<not> isl (make_insensitive cm a (files \<lparr>stdout = [], files = fs\<rparr>))"
      using h assms by auto
    then have "fst (for_filenames cm (pre @ name # post) \<lparr>stdout = [], files = fs\<rparr>) = Finished"
      by (rule for_filenames_finishes)
    with m show ?thesis by simp
  qed
qed

theorem unrecognized_skipped_witness:
  "\<not> endswith ''notes.txt'' ''.g4.in''
   \<and> main unicode_excerpt [''make_ci.py'', ''notes.txt''] Map.empty =
       (Finished,
        \<lparr>stdout = ''WARNING:  Unrecognized file-type for notes.txt, skipping.'' @ [newline],
         files = Map.empty\<rparr>)
   \<and> exit_status (fst (main unicode_excerpt [''make_ci.py'', ''notes.txt''] Map.empty)) = 0
   \<and> endswith ''K.g4.in'' ''.g4.in''
   \<and> make_insensitive unicode_excerpt ''K.g4.in'' [''K.g4.in'' \<mapsto> ascii ''A: a;''] =
       Inr [''K.g4.in'' \<mapsto> ascii ''A: a;'', ''K.g4'' \<mapsto> ascii ''A: a;'']
   \<and> exit_status
        (fst (main unicode_excerpt [''make_ci.py'', ''K.g4.in'', ''notes.txt'']
               [''K.g4.in'' \<mapsto> ascii ''A: a;''])) = 0"
proof -
  have e: "\<not> endswith ''notes.txt'' ''.g4.in''"
    by (simp add: endswith_def)
  have k: "endswith ''K.g4.in'' ''.g4.in''"
    by (simp add: endswith_def)
  have o: "out_filename ''K.g4.in'' = ''K.g4''"
    by (simp add: out_filename_def slice_def slice_index_def)
  have q: "quote \<notin> set (ascii ''A: a;'')" by (simp add: ascii_def)
  have r: "readline (ascii ''A: a;'' @ []) = (ascii ''A: a;'', [])" by (simp add: ascii_def)
  have c: "copy_lines unicode_excerpt (ascii ''A: a;'') [] = Inr (ascii ''A: a;'')"
    using copy_lines_read [OF r, of unicode_excerpt] rewrite_line_no_quote [OF q, of unicode_excerpt]
    by (simp add: copy_lines_empty after_text_def)
  have m: "make_insensitive unicode_excerpt ''K.g4.in'' [''K.g4.in'' \<mapsto> ascii ''A: a;''] =
       Inr [''K.g4.in'' \<mapsto> ascii ''A: a;'', ''K.g4'' \<mapsto> ascii ''A: a;'']"
    using make_insensitive_result [OF k, of "[''K.g4.in'' \<mapsto> ascii ''A: a;'']" "ascii ''A: a;''"
        unicode_excerpt] c o by simp
  show ?thesis
    using unrecognized_skipped [OF e, of unicode_excerpt "[]" "\<lparr>stdout = [], files = Map.empty\<rparr>"
        "[]" "[]" "''make_ci.py''" Map.empty]
      unrecognized_skipped [OF e, of unicode_excerpt "[]" "\<lparr>stdout = [], files = Map.empty\<rparr>"
        "[''K.g4.in'']" "[]" "''make_ci.py''" "[''K.g4.in'' \<mapsto> ascii ''A: a;'']"] e k m
    by simp
qed

section \<open>The text after the comment marker\<close>








end
